theory Spec2Isabelle
  imports Main "HOL-Library.Word" "HOL-Library.Sublist"
begin

unbundle bit_operations_syntax

section \<open>The RS485 command interpreter of npp301-characterizer.c\<close>

text \<open>
  The firmware keeps two global character arrays, \<^verbatim>\<open>bufA\<close> (80 bytes, incoming) and
  \<^verbatim>\<open>bufB\<close> (268 bytes, outgoing). An array is a \<open>char list\<close>; an index is a C
  \<^verbatim>\<open>int\<close>, here an \<open>int\<close> (every index stays below 80, far from the 16-bit limit of
  the compiler's \<^verbatim>\<open>int\<close>). A read or a write outside the array is the fault
  \<open>OutOfBounds\<close>, so that "never reads or writes out of bounds" is a statement about
  the model and not an assumption of it.
\<close>

subsection \<open>Constants\<close>

definition NUL :: char where
  "NUL = CHR 0x00"

definition MYID :: char where
  "MYID = CHR ''N''"

definition NBUFA :: int where
  "NBUFA = 80"

definition NBUFB :: nat where
  "NBUFB = 268"

definition VERSION_STR :: string where
  "VERSION_STR = ''0.1 PIC18F16Q41 NPP-301 Characterizer''"

subsection \<open>Arrays and zero-terminated strings\<close>

datatype fault = OutOfBounds

definition buf_read :: "char list \<Rightarrow> int \<Rightarrow> fault + char" where
  "buf_read buf i = (if 0 \<le> i \<and> i < int (length buf) then Inr (buf ! nat i) else Inl OutOfBounds)"

definition buf_write :: "char list \<Rightarrow> int \<Rightarrow> char \<Rightarrow> fault + char list" where
  "buf_write buf i c =
     (if 0 \<le> i \<and> i < int (length buf) then Inr (buf[nat i := c]) else Inl OutOfBounds)"

text \<open>
  The string a \<^verbatim>\<open>char*\<close> denotes: the bytes from index \<open>p\<close> up to, not including,
  the first zero byte. Without a zero byte in the array the read runs off its end.
\<close>

definition cstring :: "char list \<Rightarrow> int \<Rightarrow> fault + string" where
  "cstring buf p =
     (if 0 \<le> p \<and> p \<le> int (length buf) \<and> NUL \<in> set (drop (nat p) buf)
      then Inr (takeWhile (\<lambda>c. c \<noteq> NUL) (drop (nat p) buf))
      else Inl OutOfBounds)"

subsection \<open>Frame extractor\<close>

text \<open>
  \<^verbatim>\<open>find_char(buf, start, end, c)\<close>: the \<^verbatim>\<open>for\<close> loop over \<open>i = start, \<dots>, end\<close>,
  with \<open>i\<close> as the second argument. It returns \<open>-1\<close> at a zero byte, the index at a
  byte equal to \<open>c\<close>, and \<open>-1\<close> once \<open>i\<close> has passed \<open>end\<close>.
\<close>

function find_char :: "char list \<Rightarrow> int \<Rightarrow> int \<Rightarrow> char \<Rightarrow> fault + int" where
  "find_char buf i e c =
     (if i \<le> e then
        (case buf_read buf i of
           Inl f \<Rightarrow> Inl f
         | Inr b \<Rightarrow>
             if b = NUL then Inr (- 1)
             else if b = c then Inr i
             else find_char buf (i + 1) e c)
      else Inr (- 1))"
  by pat_completeness auto
termination
  by (relation "measure (\<lambda>(buf, i, e, c). nat (e + 1 - i))") auto

declare find_char.simps [simp del]

text \<open>
  \<^verbatim>\<open>trim_RS485_command(buf, nbytes)\<close> returns a pointer into \<open>buf\<close> and changes
  \<open>buf\<close>: the model returns the changed array and the index the pointer stands at.
  The three discarding branches write a zero byte at index 0 and return \<^verbatim>\<open>&buf[0]\<close>;
  the accepting branch overwrites the \<^verbatim>\<open>!\<close> with a zero byte and returns
  \<^verbatim>\<open>&buf[start+2]\<close>.
\<close>

definition discard :: "char list \<Rightarrow> fault + (char list \<times> int)" where
  "discard buf = (case buf_write buf 0 NUL of Inl f \<Rightarrow> Inl f | Inr buf' \<Rightarrow> Inr (buf', 0))"

definition trim_RS485_command :: "char list \<Rightarrow> int \<Rightarrow> fault + (char list \<times> int)" where
  "trim_RS485_command buf nbytes =
     (case find_char buf 0 (nbytes - 1) (CHR ''/'') of
        Inl f \<Rightarrow> Inl f
      | Inr start \<Rightarrow>
          if start = - 1 then discard buf
          else
            (case find_char buf start (nbytes - 1) (CHR ''!'') of
               Inl f \<Rightarrow> Inl f
             | Inr end' \<Rightarrow>
                 if end' = - 1 then discard buf
                 else
                   (case buf_read buf (start + 1) of
                      Inl f \<Rightarrow> Inl f
                    | Inr t \<Rightarrow>
                        if t \<noteq> MYID then discard buf
                        else
                          (case buf_write buf end' NUL of
                             Inl f \<Rightarrow> Inl f
                           | Inr buf' \<Rightarrow> Inr (buf', start + 2)))))"

subsection \<open>The C library functions the interpreter calls\<close>

text \<open>
  \<^verbatim>\<open>strtok\<close>, \<^verbatim>\<open>atoi\<close> and \<^verbatim>\<open>snprintf\<close> belong to the C library, not to the
  firmware; they are modelled after the C standard, on the text of a zero-terminated
  string (a \<open>string\<close> without the zero byte).

  \<^verbatim>\<open>strtok(s, sep)\<close> skips the leading separator bytes; if nothing is left it returns
  \<^verbatim>\<open>NULL\<close> (\<open>None\<close>), otherwise the token up to the next separator byte and, as the
  position kept for the next call with \<^verbatim>\<open>NULL\<close>, the text after that separator.
\<close>

definition sep_tok :: string where
  "sep_tok = '', ''"

definition strtok :: "string \<Rightarrow> string \<Rightarrow> (string \<times> string) option" where
  "strtok s sep =
     (let t = dropWhile (\<lambda>c. c \<in> set sep) s
      in if t = [] then None
         else Some (takeWhile (\<lambda>c. c \<notin> set sep) t, drop 1 (dropWhile (\<lambda>c. c \<notin> set sep) t)))"

text \<open>
  \<^verbatim>\<open>atoi\<close>: leading white space, an optional sign, then decimal digits; zero when no
  digit follows. The compiler's \<^verbatim>\<open>int\<close> has 16 bits; the C standard leaves a value
  outside its range undefined, and the model wraps it, as the 16-bit multiply and add
  of the target do.
\<close>

definition isspace :: "char \<Rightarrow> bool" where
  "isspace c = (c \<in> set [CHR '' '', CHR 0x09, CHR 0x0A, CHR 0x0B, CHR 0x0C, CHR 0x0D])"

definition isdigit :: "char \<Rightarrow> bool" where
  "isdigit c = (c \<in> set ''0123456789'')"

fun atoi_digits :: "int \<Rightarrow> string \<Rightarrow> int" where
  "atoi_digits a [] = a"
| "atoi_digits a (c # cs) =
     (if isdigit c then atoi_digits (a * 10 + (of_char c - 48)) cs else a)"

definition atoi_value :: "string \<Rightarrow> int" where
  "atoi_value s =
     (case dropWhile isspace s of
        [] \<Rightarrow> 0
      | c # cs \<Rightarrow>
          if c = CHR ''-'' then - atoi_digits 0 cs
          else if c = CHR ''+'' then atoi_digits 0 cs
          else atoi_digits 0 (c # cs))"

definition atoi :: "string \<Rightarrow> 16 word" where
  "atoi s = word_of_int (atoi_value s)"

text \<open>The decimal conversions \<^verbatim>\<open>%u\<close> and \<^verbatim>\<open>%d\<close> of \<^verbatim>\<open>snprintf\<close>.\<close>

definition digit_char :: "nat \<Rightarrow> char" where
  "digit_char d = ''0123456789'' ! d"

function fmt_u :: "nat \<Rightarrow> string" where
  "fmt_u n = (if n < 10 then [digit_char n] else fmt_u (n div 10) @ [digit_char (n mod 10)])"
  by pat_completeness auto
termination
  by (relation "measure id") auto

declare fmt_u.simps [simp del]

definition fmt_d :: "int \<Rightarrow> string" where
  "fmt_d i = (if i < 0 then CHR ''-'' # fmt_u (nat (- i)) else fmt_u (nat i))"

text \<open>
  \<^verbatim>\<open>snprintf(buf, n, fmt, \<dots>)\<close>, given the expansion \<open>text\<close> of the format: it
  stores at most \<open>n - 1\<close> bytes of the text and a zero byte after them, and leaves the
  rest of the array as it was. The result is the array after the call.
\<close>

definition snprintf :: "char list \<Rightarrow> nat \<Rightarrow> string \<Rightarrow> char list" where
  "snprintf buf n text =
     (if n = 0 then buf
      else (let out = take (n - 1) text @ [NUL] in out @ drop (length out) buf))"

subsection \<open>The device\<close>

text \<open>
  The state the interpreter touches: the latch bit of the LED pin, the global
  \<^verbatim>\<open>override_led\<close>, the outgoing array \<^verbatim>\<open>bufB\<close>, and two logs of what was handed
  to the collaborators: every string passed to \<^verbatim>\<open>uart1_putstr\<close>, and every call of
  \<^verbatim>\<open>set_VREF_on\<close> and \<^verbatim>\<open>set_VREF_off\<close>, oldest first.
\<close>

datatype vref_call = VREF_on "8 word" | VREF_off

record mcu =
  GREENLED :: "1 word"
  override_led :: "8 word"
  bufB :: "char list"
  uart_tx :: "string list"
  vref_log :: "vref_call list"

text \<open>
  The state in which \<^verbatim>\<open>main\<close> enters its loop: \<^verbatim>\<open>init_pins\<close> and the start-up
  blinking leave the LED off, and the globals hold their initial zeros.
\<close>

definition reset_state :: mcu where
  "reset_state =
     \<lparr>GREENLED = 0, override_led = 0, bufB = replicate NBUFB NUL, uart_tx = [], vref_log = []\<rparr>"

text \<open>
  Modelled from the spec: the body of \<^verbatim>\<open>uart1_putstr\<close> (declared in \<^verbatim>\<open>uart.h\<close>)
  is not part of the sources. The specification's \<^verbatim>\<open>transport.write(bytes)\<close> hands the
  bytes to the transport and returns; the model records the zero-terminated string of
  each call.
\<close>

definition uart1_putstr :: "char list \<Rightarrow> mcu \<Rightarrow> mcu" where
  "uart1_putstr str st = st\<lparr>uart_tx := uart_tx st @ [takeWhile (\<lambda>c. c \<noteq> NUL) str]\<rparr>"

definition set_VREF_on :: "8 word \<Rightarrow> mcu \<Rightarrow> mcu" where
  "set_VREF_on level st = st\<lparr>vref_log := vref_log st @ [VREF_on level]\<rparr>"

definition set_VREF_off :: "mcu \<Rightarrow> mcu" where
  "set_VREF_off st = st\<lparr>vref_log := vref_log st @ [VREF_off]\<rparr>"

text \<open>
  \<^verbatim>\<open>ADC_read(ain)\<close> starts a conversion, waits for the hardware to clear the
  \<^verbatim>\<open>GO\<close> bit and returns the result register. The converter is the environment: a
  function from the channel to the 16-bit result of the conversion.
\<close>

type_synonym adc = "8 word \<Rightarrow> 16 word"

definition ADC_read :: "adc \<Rightarrow> 8 word \<Rightarrow> 16 word" where
  "ADC_read hw ain = hw ain"

definition MY_ANC2 :: "8 word" where "MY_ANC2 = 0b00010010"
definition MY_ANC7 :: "8 word" where "MY_ANC7 = 0b00010111"
definition MY_ANB5 :: "8 word" where "MY_ANB5 = 0b00001101"
definition MY_ANB6 :: "8 word" where "MY_ANB6 = 0b00001110"
definition MY_ANB7 :: "8 word" where "MY_ANB7 = 0b00001111"

subsection \<open>Command interpreter\<close>

text \<open>
  The five branches of the \<^verbatim>\<open>switch\<close> in \<^verbatim>\<open>interpret_RS485_command\<close>, one
  definition each; \<open>args\<close> is the text at \<^verbatim>\<open>&cmdStr[1]\<close>. Every branch formats its
  reply into \<^verbatim>\<open>bufB\<close> with \<^verbatim>\<open>snprintf(bufB, NBUFB, \<dots>)\<close> and passes
  \<^verbatim>\<open>bufB\<close> to \<^verbatim>\<open>uart1_putstr\<close>.
\<close>

definition reply :: "string \<Rightarrow> mcu \<Rightarrow> mcu" where
  "reply text st =
     (let st' = st\<lparr>bufB := snprintf (bufB st) NBUFB text\<rparr> in uart1_putstr (bufB st') st')"

definition case_v :: "mcu \<Rightarrow> mcu" where
  "case_v st = reply (''/0v '' @ VERSION_STR @ [CHR ''#'', CHR 0x0A]) st"

definition case_L :: "string \<Rightarrow> mcu \<Rightarrow> mcu" where
  "case_L args st =
     (case strtok args sep_tok of
        Some (token, _) \<Rightarrow>
          (let i = (ucast (atoi token AND 1) :: 8 word);
               st' = st\<lparr>GREENLED := ucast i, override_led := i\<rparr>
           in reply (''/0L '' @ fmt_d (uint i) @ [CHR ''#'', CHR 0x0A]) st')
      | None \<Rightarrow> reply (''/0L error: no value'' @ [CHR ''#'', CHR 0x0A]) st)"

definition case_a :: "adc \<Rightarrow> mcu \<Rightarrow> mcu" where
  "case_a hw st =
     (let pin8_npp301 = ADC_read hw MY_ANC2;
          pin2_npp301 = ADC_read hw MY_ANC7;
          pin4_npp301 = ADC_read hw MY_ANB7;
          pin5_npp301 = ADC_read hw MY_ANB6;
          pin6_npp301 = ADC_read hw MY_ANB5
      in reply (''/0a '' @ fmt_u (unat pin8_npp301) @ '' '' @ fmt_u (unat pin2_npp301) @ '' ''
                @ fmt_u (unat pin4_npp301) @ '' '' @ fmt_u (unat pin5_npp301) @ '' ''
                @ fmt_u (unat pin6_npp301) @ [CHR ''#'', CHR 0x0A]) st)"

definition case_w :: "string \<Rightarrow> mcu \<Rightarrow> mcu" where
  "case_w args st =
     (case strtok args sep_tok of
        Some (token, saved) \<Rightarrow>
          (let level = atoi token;
               onOffFlag = (case strtok saved sep_tok of
                              Some (token2, _) \<Rightarrow> (ucast (atoi token2) :: 8 word)
                            | None \<Rightarrow> 1)
           in if onOffFlag \<noteq> 0 then
                (let level1 = (if 255 <s level then 255 else level);
                     level2 = (if level1 <s 0 then 0 else level1)
                 in reply (''/0w VREF on level='' @ fmt_d (sint level2) @ [CHR ''#'', CHR 0x0A])
                      (set_VREF_on (ucast level2) st))
              else reply (''/0w VREF off'' @ [CHR ''#'', CHR 0x0A]) (set_VREF_off st))
      | None \<Rightarrow>
          reply (''/0w error: missing level and on/off flag'' @ [CHR ''#'', CHR 0x0A]) st)"

definition case_default :: "char \<Rightarrow> mcu \<Rightarrow> mcu" where
  "case_default c st = reply (''/0'' @ [c] @ '' error: Unknown command'' @ [CHR ''#'', CHR 0x0A]) st"

text \<open>
  \<open>cmdStr\<close> is the text of the zero-terminated string the function is given, so
  \<^verbatim>\<open>cmdStr[0]\<close> of the empty text is the zero byte. The LED is switched on before
  the \<^verbatim>\<open>switch\<close> and off after it, unless \<^verbatim>\<open>override_led\<close> is set at that moment.
\<close>

definition interpret_RS485_command :: "adc \<Rightarrow> string \<Rightarrow> mcu \<Rightarrow> mcu" where
  "interpret_RS485_command hw cmdStr st =
     (let c0 = (case cmdStr of [] \<Rightarrow> NUL | c # _ \<Rightarrow> c);
          args = drop 1 cmdStr;
          st1 = (if override_led st = 0 then st\<lparr>GREENLED := 1\<rparr> else st);
          st2 = (if c0 = CHR ''v'' then case_v st1
                 else if c0 = CHR ''L'' then case_L args st1
                 else if c0 = CHR ''a'' then case_a hw st1
                 else if c0 = CHR ''w'' then case_w args st1
                 else case_default c0 st1)
      in if override_led st2 = 0 then st2\<lparr>GREENLED := 0\<rparr> else st2)"

subsection \<open>The poll loop\<close>

text \<open>
  One pass of the \<^verbatim>\<open>while (1)\<close> loop of \<^verbatim>\<open>main\<close>. The body of
  \<^verbatim>\<open>uart1_getstr\<close> (declared in \<^verbatim>\<open>uart.h\<close>) is not part of the sources, so the
  pass takes what that call leaves behind as its input: the contents \<open>bufA\<close> of the
  incoming array and the return value \<open>m\<close>. The command is interpreted when
  \<^verbatim>\<open>*cmd\<close> is not the zero byte.
\<close>

definition main_pass :: "adc \<Rightarrow> char list \<Rightarrow> int \<Rightarrow> mcu \<Rightarrow> fault + mcu" where
  "main_pass hw bufA m st =
     (if 0 < m then
        (case trim_RS485_command bufA NBUFA of
           Inl f \<Rightarrow> Inl f
         | Inr (buf', cmd) \<Rightarrow>
             (case buf_read buf' cmd of
                Inl f \<Rightarrow> Inl f
              | Inr b \<Rightarrow>
                  if b \<noteq> NUL then
                    (case cstring buf' cmd of
                       Inl f \<Rightarrow> Inl f
                     | Inr cmdStr \<Rightarrow> Inr (interpret_RS485_command hw cmdStr st))
                  else Inr st))
      else Inr st)"

text \<open>Successive calls of the interpreter, each with the converter as it is then.\<close>

fun interpret_all :: "(adc \<times> string) list \<Rightarrow> mcu \<Rightarrow> mcu" where
  "interpret_all [] st = st"
| "interpret_all ((hw, cmdStr) # rest) st = interpret_all rest (interpret_RS485_command hw cmdStr st)"

text \<open>A converter that reads zero on every channel, for concrete runs.\<close>

definition adc_zero :: adc where
  "adc_zero ain = 0"

subsection \<open>The frame extractor as the specification words it\<close>

text \<open>
  The four steps of the specification, on the bytes of the buffer: a zero byte ends
  the buffer; no first \<^verbatim>\<open>/\<close> gives no frame; no \<^verbatim>\<open>!\<close> after it gives no frame; a
  byte after the \<^verbatim>\<open>/\<close> other than the node's identity gives no frame; otherwise the
  payload is what stands between that byte and the first \<^verbatim>\<open>!\<close>.
\<close>

definition spec_extract :: "char list \<Rightarrow> string option" where
  "spec_extract bytes =
     (let line = takeWhile (\<lambda>c. c \<noteq> NUL) bytes
      in if CHR ''/'' \<notin> set line then None
         else (let after = drop 1 (dropWhile (\<lambda>c. c \<noteq> CHR ''/'') line)
               in if CHR ''!'' \<notin> set after then None
                  else if hd after \<noteq> MYID then None
                  else Some (takeWhile (\<lambda>c. c \<noteq> CHR ''!'') (tl after))))"

text \<open>An 80-byte incoming array that starts with the given line, zero bytes after it.\<close>

definition line_buffer :: "string \<Rightarrow> char list" where
  "line_buffer line = line @ replicate (nat NBUFA - length line) NUL"

text \<open>The command text the caller of \<^verbatim>\<open>trim_RS485_command\<close> reads at the returned pointer.\<close>

definition trimmed :: "char list \<Rightarrow> int \<Rightarrow> fault + string" where
  "trimmed buf nbytes =
     (case trim_RS485_command buf nbytes of
        Inl f \<Rightarrow> Inl f
      | Inr (buf', p) \<Rightarrow> cstring buf' p)"

text \<open>The target id of a line: the byte after its first \<^verbatim>\<open>/\<close>, when there is one.\<close>

definition target_id :: "string \<Rightarrow> char option" where
  "target_id line =
     (case drop 1 (dropWhile (\<lambda>c. c \<noteq> CHR ''/'') line) of [] \<Rightarrow> None | t # _ \<Rightarrow> Some t)"




text \<open>A reply in the outbound grammar: it starts with \<^verbatim>\<open>/0\<close> and ends with \<^verbatim>\<open>#\<close> and a newline.\<close>

definition well_framed :: "string \<Rightarrow> bool" where
  "well_framed r \<longleftrightarrow> prefix ''/0'' r \<and> suffix [CHR ''#'', CHR 0x0A] r"

text \<open>One reply was transmitted between two states, well framed and short.\<close>

definition one_reply :: "mcu \<Rightarrow> mcu \<Rightarrow> bool" where
  "one_reply st st' \<longleftrightarrow> (\<exists>r. uart_tx st' = uart_tx st @ [r] \<and> well_framed r \<and> length r \<le> 43)"

text \<open>
  What a scan of the first \<open>nbytes\<close> bytes of \<open>buf\<close> sees: \<open>line\<close>, the bytes before
  the first zero byte or before index \<open>nbytes\<close>, and \<open>zs\<close>, the rest of the array.
\<close>

definition window :: "char list \<Rightarrow> int \<Rightarrow> string \<Rightarrow> char list \<Rightarrow> bool" where
  "window buf nbytes line zs \<longleftrightarrow>
     buf = line @ zs \<and> 0 < nbytes \<and> nbytes \<le> int (length buf) \<and> NUL \<notin> set line \<and>
     int (length line) \<le> nbytes \<and> (int (length line) = nbytes \<or> (\<exists>zs'. zs = NUL # zs'))"

section \<open>Properties\<close>

subsection \<open>The scan\<close>

lemma find_char_found:
  "NUL \<notin> set ys \<Longrightarrow> c \<notin> set ys \<Longrightarrow> c \<noteq> NUL \<Longrightarrow> int (length xs + length ys) \<le> e \<Longrightarrow>
   find_char (xs @ ys @ c # zs) (int (length xs)) e c = Inr (int (length xs + length ys))"
proof (induction ys arbitrary: xs)
  case Nil
  then show ?case
    by (subst find_char.simps) (simp add: buf_read_def)
next
  case (Cons y ys)
  have "find_char ((xs @ [y]) @ ys @ c # zs) (int (length (xs @ [y]))) e c
          = Inr (int (length (xs @ [y]) + length ys))"
    using Cons.prems by (intro Cons.IH) auto
  then have rec: "find_char (xs @ y # ys @ c # zs) (int (length xs) + 1) e c
          = Inr (int (length xs + length (y # ys)))"
    by (simp add: add.commute)
  show ?case
    using Cons.prems rec
    by (subst find_char.simps) (auto simp: buf_read_def nth_append)
qed

lemma find_char_none:
  "c \<notin> set ys \<Longrightarrow> e < int (length (xs @ ys @ zs)) \<Longrightarrow>
   e < int (length xs + length ys) \<or> (\<exists>zs'. zs = NUL # zs') \<Longrightarrow>
   find_char (xs @ ys @ zs) (int (length xs)) e c = Inr (- 1)"
proof (induction ys arbitrary: xs)
  case Nil
  then show ?case
    by (subst find_char.simps) (auto simp: buf_read_def nth_append)
next
  case (Cons y ys)
  have "find_char ((xs @ [y]) @ ys @ zs) (int (length (xs @ [y]))) e c = Inr (- 1)"
    using Cons.prems by (intro Cons.IH) auto
  then have rec: "find_char (xs @ y # ys @ zs) (int (length xs) + 1) e c = Inr (- 1)"
    by (simp add: add.commute)
  show ?case
    using Cons.prems(1) rec
    by (subst find_char.simps) (auto simp: buf_read_def nth_append)
qed


lemma window_line:
  assumes "0 < nbytes" "nbytes \<le> int (length buf)"
  shows "\<exists>zs. window buf nbytes (takeWhile (\<lambda>c. c \<noteq> NUL) (take (nat nbytes) buf)) zs"
proof -
  let ?B = "take (nat nbytes) buf"
  let ?line = "takeWhile (\<lambda>c. c \<noteq> NUL) ?B"
  let ?Z = "dropWhile (\<lambda>c. c \<noteq> NUL) ?B"
  have B: "?B = ?line @ ?Z" by simp
  have lenB: "int (length ?B) = nbytes" using assms by simp
  have buf: "buf = ?line @ (?Z @ drop (nat nbytes) buf)"
    by (metis B append_assoc append_take_drop_id)
  have nonul: "NUL \<notin> set ?line"
    by (auto dest: set_takeWhileD)
  have len: "int (length ?line) \<le> nbytes"
    using lenB length_takeWhile_le [of "\<lambda>c. c \<noteq> NUL" ?B] by linarith
  have stop: "int (length ?line) = nbytes \<or> (\<exists>zs'. ?Z @ drop (nat nbytes) buf = NUL # zs')"
  proof (cases "?Z")
    case Nil
    then have "?line = ?B" using B by (metis append_Nil2)
    then have "int (length ?line) = nbytes" using lenB by metis
    then show ?thesis by blast
  next
    case (Cons z zs)
    then have "z = NUL"
      using hd_dropWhile [of "\<lambda>c. c \<noteq> NUL" ?B] by (metis list.sel(1) list.simps(3))
    then show ?thesis using Cons by simp
  qed
  show ?thesis
    unfolding window_def using buf nonul len stop assms by blast
qed

lemma discard_ok:
  "0 < length buf \<Longrightarrow> discard buf = Inr (buf[0 := NUL], 0)"
  by (simp add: discard_def buf_write_def)

lemma trim_no_start:
  assumes w: "window buf nbytes line zs" and "CHR ''/'' \<notin> set line"
  shows "trim_RS485_command buf nbytes = discard buf"
proof -
  have "find_char ([] @ line @ zs) (int (length ([]::char list))) (nbytes - 1) (CHR ''/'') = Inr (- 1)"
    using assms by (intro find_char_none) (auto simp: window_def)
  then have "find_char buf 0 (nbytes - 1) (CHR ''/'') = Inr (- 1)"
    using w by (simp add: window_def)
  then show ?thesis by (simp add: trim_RS485_command_def)
qed

lemma find_start:
  assumes w: "window buf nbytes (pre @ CHR ''/'' # after) zs" and "CHR ''/'' \<notin> set pre"
  shows "find_char buf 0 (nbytes - 1) (CHR ''/'') = Inr (int (length pre))"
proof -
  have "find_char ([] @ pre @ CHR ''/'' # (after @ zs)) (int (length ([]::char list))) (nbytes - 1) (CHR ''/'')
          = Inr (int (length ([]::char list) + length pre))"
    using assms by (intro find_char_found) (auto simp: window_def NUL_def)
  then show ?thesis using w by (simp add: window_def)
qed

lemma trim_no_end:
  assumes w: "window buf nbytes (pre @ CHR ''/'' # after) zs" and "CHR ''/'' \<notin> set pre"
    and "CHR ''!'' \<notin> set after"
  shows "trim_RS485_command buf nbytes = discard buf"
proof -
  have "find_char (pre @ (CHR ''/'' # after) @ zs) (int (length pre)) (nbytes - 1) (CHR ''!'') = Inr (- 1)"
    using assms by (intro find_char_none) (auto simp: window_def)
  then have "find_char buf (int (length pre)) (nbytes - 1) (CHR ''!'') = Inr (- 1)"
    using w by (simp add: window_def)
  then show ?thesis
    using find_start [OF assms(1,2)] by (simp add: trim_RS485_command_def)
qed

lemma find_end:
  assumes w: "window buf nbytes (pre @ CHR ''/'' # mid @ CHR ''!'' # post) zs"
    and "CHR ''!'' \<notin> set mid"
  shows "find_char buf (int (length pre)) (nbytes - 1) (CHR ''!'') = Inr (int (length pre + 1 + length mid))"
proof -
  have "find_char (pre @ (CHR ''/'' # mid) @ CHR ''!'' # (post @ zs)) (int (length pre)) (nbytes - 1) (CHR ''!'')
          = Inr (int (length pre + length (CHR ''/'' # mid)))"
    using assms by (intro find_char_found) (auto simp: window_def NUL_def)
  then show ?thesis using w by (simp add: window_def)
qed

lemma trim_foreign:
  assumes w: "window buf nbytes (pre @ CHR ''/'' # mid @ CHR ''!'' # post) zs"
    and "CHR ''/'' \<notin> set pre" and "CHR ''!'' \<notin> set mid" and "hd (mid @ [CHR ''!'']) \<noteq> MYID"
  shows "trim_RS485_command buf nbytes = discard buf"
proof -
  have buf: "buf = pre @ CHR ''/'' # (mid @ [CHR ''!'']) @ post @ zs"
    using w by (simp add: window_def)
  have "buf ! (length pre + 1) = hd (mid @ [CHR ''!''])"
    unfolding buf by (simp add: nth_append hd_conv_nth)
  moreover have "int (length pre) + 1 < int (length buf)"
    unfolding buf by simp
  ultimately have "buf_read buf (int (length pre) + 1) = Inr (hd (mid @ [CHR ''!'']))"
    by (simp add: buf_read_def nat_add_distrib)
  then show ?thesis
    using find_start [OF w assms(2)] find_end [OF w assms(3)] assms(4)
    by (simp add: trim_RS485_command_def)
qed

lemma trim_accept:
  assumes w: "window buf nbytes (pre @ CHR ''/'' # MYID # payload @ CHR ''!'' # post) zs"
    and "CHR ''/'' \<notin> set pre" and "CHR ''!'' \<notin> set payload"
  shows "trim_RS485_command buf nbytes =
           Inr (pre @ CHR ''/'' # MYID # payload @ NUL # post @ zs, int (length pre) + 2)"
proof -
  have buf: "buf = (pre @ CHR ''/'' # MYID # payload) @ CHR ''!'' # post @ zs"
    using w by (simp add: window_def)
  have w': "window buf nbytes (pre @ CHR ''/'' # (MYID # payload) @ CHR ''!'' # post) zs"
    using w by simp
  have "buf ! (length pre + 1) = MYID"
    unfolding buf by (simp add: nth_append)
  moreover have "int (length pre) + 1 < int (length buf)"
    unfolding buf by simp
  ultimately have rd: "buf_read buf (int (length pre) + 1) = Inr MYID"
    by (simp add: buf_read_def nat_add_distrib)
  have e: "find_char buf (int (length pre)) (nbytes - 1) (CHR ''!'')
             = Inr (int (length (pre @ CHR ''/'' # MYID # payload)))"
    using find_end [OF w'] assms(3) by (simp add: MYID_def)
  have "buf[length (pre @ CHR ''/'' # MYID # payload) := NUL]
          = (pre @ CHR ''/'' # MYID # payload) @ NUL # post @ zs"
    unfolding buf by (rule list_update_length)
  moreover have "length (pre @ CHR ''/'' # MYID # payload) < length buf"
    unfolding buf by simp
  ultimately have wr: "buf_write buf (int (length (pre @ CHR ''/'' # MYID # payload))) NUL
          = Inr (pre @ CHR ''/'' # MYID # payload @ NUL # post @ zs)"
    by (simp add: buf_write_def del: length_append)
  show ?thesis
    using find_start [OF w assms(2)] e rd wr
    by (simp add: trim_RS485_command_def del: length_append)
qed

lemma cstring_at:
  "NUL \<notin> set s \<Longrightarrow> cstring (xs @ s @ NUL # zs) (int (length xs)) = Inr s"
  by (auto simp: cstring_def takeWhile_tail)


lemma spec_extract_after:
  assumes "takeWhile (\<lambda>c. c \<noteq> NUL) bytes = pre @ CHR ''/'' # after" and "CHR ''/'' \<notin> set pre"
  shows "spec_extract bytes =
           (if CHR ''!'' \<notin> set after then None
            else if hd after \<noteq> MYID then None
            else Some (takeWhile (\<lambda>c. c \<noteq> CHR ''!'') (tl after)))"
proof -
  have "dropWhile (\<lambda>c. c \<noteq> CHR ''/'') (pre @ CHR ''/'' # after) = CHR ''/'' # after"
    using assms(2) by (auto simp: dropWhile_append3)
  then show ?thesis
    using assms(1) by (simp add: spec_extract_def Let_def)
qed

lemma cstring_discarded:
  "0 < length buf \<Longrightarrow> cstring (buf[0 := NUL]) 0 = Inr []"
  by (cases buf) (simp_all add: cstring_def)

lemma trim_cases:
  assumes "0 < nbytes" and "nbytes \<le> int (length buf)"
  shows "(spec_extract (take (nat nbytes) buf) = None \<and> trim_RS485_command buf nbytes = discard buf) \<or>
         (\<exists>pre payload post zs.
            spec_extract (take (nat nbytes) buf) = Some payload \<and> NUL \<notin> set payload \<and>
            trim_RS485_command buf nbytes
              = Inr (pre @ CHR ''/'' # MYID # payload @ NUL # post @ zs, int (length pre) + 2))"
proof -
  let ?line = "takeWhile (\<lambda>c. c \<noteq> NUL) (take (nat nbytes) buf)"
  obtain zs where w: "window buf nbytes ?line zs"
    using window_line [OF assms(1,2)] by blast
  show ?thesis
  proof (cases "CHR ''/'' \<in> set ?line")
    case False
    then have "spec_extract (take (nat nbytes) buf) = None"
      by (simp add: spec_extract_def)
    with trim_no_start [OF w False] show ?thesis by simp
  next
    case True
    then obtain pre after where line: "?line = pre @ CHR ''/'' # after" and pre: "CHR ''/'' \<notin> set pre"
      by (meson split_list_first)
    note sp = spec_extract_after [OF line pre]
    have w1: "window buf nbytes (pre @ CHR ''/'' # after) zs"
      using w line by simp
    show ?thesis
    proof (cases "CHR ''!'' \<in> set after")
      case False
      have "spec_extract (take (nat nbytes) buf) = None" using sp False by simp
      with trim_no_end [OF w1 pre False] show ?thesis by simp
    next
      case True
      then obtain mid post where after: "after = mid @ CHR ''!'' # post" and mid: "CHR ''!'' \<notin> set mid"
        by (meson split_list_first)
      have w2: "window buf nbytes (pre @ CHR ''/'' # mid @ CHR ''!'' # post) zs"
        using w1 after by simp
      have hd_after: "hd after = hd (mid @ [CHR ''!''])"
        unfolding after by (cases mid) simp_all
      show ?thesis
      proof (cases "hd after = MYID")
        case False
        then have "hd (mid @ [CHR ''!'']) \<noteq> MYID" using hd_after by simp
        moreover have "spec_extract (take (nat nbytes) buf) = None" using sp False by simp
        ultimately show ?thesis using trim_foreign [OF w2 pre mid] by simp
      next
        case hdT: True
        then obtain payload where m: "mid = MYID # payload"
          using hd_after by (cases mid) (simp_all add: MYID_def)
        have w3: "window buf nbytes (pre @ CHR ''/'' # MYID # payload @ CHR ''!'' # post) zs"
          using w2 m by simp
        have pl: "CHR ''!'' \<notin> set payload" using mid m by simp
        have nonul: "NUL \<notin> set payload" using w3 by (simp add: window_def)
        have "spec_extract (take (nat nbytes) buf) = Some payload"
          using sp True hdT pl by (auto simp: after m takeWhile_tail)
        then show ?thesis
          using trim_accept [OF w3 pre pl] nonul by blast
      qed
    qed
  qed
qed

lemma cstring_payload:
  "NUL \<notin> set payload \<Longrightarrow>
   cstring (pre @ CHR ''/'' # MYID # payload @ NUL # rest) (int (length pre) + 2) = Inr payload"
  using cstring_at [of payload "pre @ [CHR ''/'', MYID]" rest] by (simp add: add.commute)

lemma buf_read_payload:
  "buf_read (pre @ CHR ''/'' # MYID # payload @ NUL # rest) (int (length pre) + 2)
     = Inr (hd (payload @ [NUL]))"
proof -
  have "(pre @ CHR ''/'' # MYID # payload @ NUL # rest) ! (length pre + 2) = hd (payload @ [NUL])"
    by (cases payload) (simp_all add: nth_append)
  then show ?thesis
    by (simp add: buf_read_def nat_add_distrib)
qed

text \<open>
  C1. For every array of at most 80 bytes (and at least one), scanned over its first
  \<open>nbytes\<close> bytes, \<^verbatim>\<open>trim_RS485_command\<close> does what the four steps of the
  specification say, with a zero byte ending the scan: where the specification finds no
  frame (no \<^verbatim>\<open>/\<close>, no \<^verbatim>\<open>!\<close> after it, or a target id other than \<^verbatim>\<open>N\<close>) the
  function returns \<^verbatim>\<open>&buf[0]\<close> with a zero-length string there; where the
  specification finds a payload the function returns a pointer past the target id, and
  the string there is exactly that payload. The function never reads or writes outside
  the array.
\<close>

theorem trim_implements_spec:
  assumes "0 \<le> nbytes" and "nbytes \<le> int (length buf)" and "0 < length buf" and "length buf \<le> 80"
  shows "\<exists>buf' p. trim_RS485_command buf nbytes = Inr (buf', p) \<and>
           (case spec_extract (take (nat nbytes) buf) of
              None \<Rightarrow> p = 0 \<and> cstring buf' p = Inr []
            | Some payload \<Rightarrow> 2 \<le> p \<and> cstring buf' p = Inr payload)"
proof -
  note pos = assms(3)
  have none: ?thesis
    if "spec_extract (take (nat nbytes) buf) = None" "trim_RS485_command buf nbytes = discard buf"
    using that discard_ok [OF pos] cstring_discarded [OF pos] by simp
  show ?thesis
  proof (cases "nbytes = 0")
    case True
    have "find_char buf 0 (nbytes - 1) (CHR ''/'') = Inr (- 1)"
      using True by (subst find_char.simps) simp
    then have "trim_RS485_command buf nbytes = discard buf"
      by (simp add: trim_RS485_command_def)
    moreover have "spec_extract (take (nat nbytes) buf) = None"
      using True by (simp add: spec_extract_def)
    ultimately show ?thesis by (intro none)
  next
    case False
    then have "0 < nbytes" using assms(1) by simp
    from trim_cases [OF this assms(2)] show ?thesis
    proof (elim disjE conjE exE)
      assume "spec_extract (take (nat nbytes) buf) = None"
        and "trim_RS485_command buf nbytes = discard buf"
      then show ?thesis by (rule none)
    next
      fix pre payload post zs
      assume "spec_extract (take (nat nbytes) buf) = Some payload" and "NUL \<notin> set payload"
        and "trim_RS485_command buf nbytes
               = Inr (pre @ CHR ''/'' # MYID # payload @ NUL # post @ zs, int (length pre) + 2)"
      then show ?thesis
        using cstring_payload [of payload pre "post @ zs"] by simp
    qed
  qed
qed

theorem trim_implements_spec_witness:
  "0 \<le> NBUFA \<and> NBUFA \<le> int (length (line_buffer ''x/Nv!'')) \<and>
   0 < length (line_buffer ''x/Nv!'') \<and> length (line_buffer ''x/Nv!'') \<le> 80 \<and>
   spec_extract (take (nat NBUFA) (line_buffer ''x/Nv!'')) = Some ''v'' \<and>
   (\<exists>buf' p. trim_RS485_command (line_buffer ''x/Nv!'') NBUFA = Inr (buf', p) \<and>
      2 \<le> p \<and> cstring buf' p = Inr ''v'')"
proof -
  have len: "length (line_buffer ''x/Nv!'') = 80"
    by (simp add: line_buffer_def NBUFA_def)
  have sp: "spec_extract (take (nat NBUFA) (line_buffer ''x/Nv!'')) = Some ''v''"
    by (simp add: spec_extract_def line_buffer_def NBUFA_def NUL_def MYID_def)
  show ?thesis
    using trim_implements_spec [of NBUFA "line_buffer ''x/Nv!''"] len sp
    by (simp add: NBUFA_def)
qed

subsection \<open>Replies\<close>

lemma takeWhile_stop:
  "\<not> P y \<Longrightarrow> takeWhile P (xs @ y # ys) = takeWhile P xs"
  by (induction xs) auto

lemma snprintf_cstring:
  "0 < n \<Longrightarrow> takeWhile (\<lambda>c. c \<noteq> NUL) (snprintf buf n text) = takeWhile (\<lambda>c. c \<noteq> NUL) (take (n - 1) text)"
  by (simp add: snprintf_def Let_def takeWhile_stop)


lemma reply_tx:
  "uart_tx (reply text st) = uart_tx st @ [takeWhile (\<lambda>c. c \<noteq> NUL) (take (NBUFB - 1) text)]"
  by (simp add: reply_def uart1_putstr_def Let_def snprintf_cstring NBUFB_def)

lemma reply_fits:
  "NUL \<notin> set text \<Longrightarrow> length text < NBUFB \<Longrightarrow> uart_tx (reply text st) = uart_tx st @ [text]"
  by (auto simp: reply_tx NBUFB_def)

lemma reply_fields [simp]:
  "GREENLED (reply text st) = GREENLED st"
  "override_led (reply text st) = override_led st"
  "vref_log (reply text st) = vref_log st"
  by (simp_all add: reply_def uart1_putstr_def Let_def)


lemma digit_char_digit: "d < 10 \<Longrightarrow> digit_char d \<in> set ''0123456789''"
  unfolding digit_char_def by (rule nth_mem) simp

lemma fmt_u_digits: "set (fmt_u n) \<subseteq> set ''0123456789''"
proof (induction n rule: fmt_u.induct)
  case (1 n)
  show ?case
  proof (cases "n < 10")
    case True
    then show ?thesis
      using digit_char_digit [of n] by (subst fmt_u.simps) simp
  next
    case False
    have "n mod 10 < 10" by simp
    then have "digit_char (n mod 10) \<in> set ''0123456789''" by (rule digit_char_digit)
    then show ?thesis
      using False "1.IH" by (subst fmt_u.simps) simp
  qed
qed

lemma fmt_u_length: "0 < k \<Longrightarrow> n < 10 ^ k \<Longrightarrow> length (fmt_u n) \<le> k"
proof (induction k arbitrary: n)
  case 0
  then show ?case by simp
next
  case (Suc k)
  show ?case
  proof (cases "n < 10")
    case True
    then show ?thesis by (subst fmt_u.simps) simp
  next
    case False
    then have k: "0 < k" using Suc.prems(2) by (cases k) auto
    have "n div 10 < 10 ^ k" using Suc.prems(2) by (simp add: less_mult_imp_div_less mult.commute)
    then have "length (fmt_u (n div 10)) \<le> k" using Suc.IH k by blast
    then show ?thesis using False by (subst fmt_u.simps) simp
  qed
qed

lemma fmt_u_small: "fmt_u 0 = ''0''" "fmt_u 1 = ''1''"
  by (simp_all add: fmt_u.simps digit_char_def)

subsection \<open>Machine integers\<close>

lemma low_bit: "(ucast (a AND 1 :: 16 word) :: 8 word) = of_bool (odd a)"
proof -
  have "a AND 1 = of_bool (odd a)" by (simp add: and_one_eq of_bool_odd_eq_mod_2)
  moreover have "(ucast (of_bool (odd a) :: 16 word) :: 8 word) = of_bool (odd a)" by simp
  ultimately show ?thesis by (simp only:)
qed

lemma clamp_cast:
  fixes w :: "16 word"
  assumes "0 \<le> sint w" "sint w \<le> 255"
  shows "uint (ucast w :: 8 word) = sint w"
proof -
  have "uint w = take_bit 16 (sint w)" using uint_sint [of w] by simp
  also have "\<dots> = sint w" using assms by (intro take_bit_int_eq_self) auto
  finally have e: "uint w = sint w" .
  have "uint (ucast w :: 8 word) = take_bit 8 (uint w)"
    by (simp add: unsigned_ucast_eq)
  also have "\<dots> = uint w"
    using assms e by (intro take_bit_int_eq_self) auto
  finally show ?thesis using e by simp
qed

subsection \<open>The branches of the interpreter\<close>

lemma fmt_u_no_NUL: "NUL \<notin> set (fmt_u n)"
  using fmt_u_digits [of n] by (auto simp: NUL_def)

lemma fmt_u_no_r: "CHR ''r'' \<notin> set (fmt_u n)"
  using fmt_u_digits [of n] by auto

lemma fmt_u_word16: "length (fmt_u (unat (w :: 16 word))) \<le> 5"
proof -
  have "unat w < 2 ^ 16" using unsigned_less [of w] by simp
  then have "unat w < 10 ^ 5" by simp
  then show ?thesis by (intro fmt_u_length) simp_all
qed

lemma framed_reply:
  assumes "NUL \<notin> set body" and "length body \<le> 39"
  shows "uart_tx (reply (''/0'' @ body @ [CHR ''#'', CHR 0x0A]) st)
           = uart_tx st @ [''/0'' @ body @ [CHR ''#'', CHR 0x0A]]"
  using assms by (intro reply_fits) (simp_all add: NUL_def NBUFB_def)

lemma framed_well:
  "well_framed (''/0'' @ body @ [CHR ''#'', CHR 0x0A])"
  unfolding well_framed_def
  by (metis append_assoc prefixI suffixI)

lemma one_replyI:
  assumes "NUL \<notin> set body" and "length body \<le> 39" and "uart_tx st0 = uart_tx st"
  shows "one_reply st (reply (''/0'' @ body @ [CHR ''#'', CHR 0x0A]) st0)"
  unfolding one_reply_def
  using framed_reply [OF assms(1,2), of st0] framed_well [of body] assms(2,3) by simp

lemma case_v_reply: "one_reply st (case_v st)"
  using one_replyI [of "''v '' @ VERSION_STR" st st]
  by (simp add: case_v_def VERSION_STR_def NUL_def)

lemma case_default_reply: "c \<noteq> NUL \<Longrightarrow> one_reply st (case_default c st)"
  using one_replyI [of "[c] @ '' error: Unknown command''" st st]
  by (simp add: case_default_def NUL_def)

lemma case_a_reply: "one_reply st (case_a hw st)"
proof -
  let ?body = "''a '' @ fmt_u (unat (hw MY_ANC2)) @ '' '' @ fmt_u (unat (hw MY_ANC7)) @ '' ''
                @ fmt_u (unat (hw MY_ANB7)) @ '' '' @ fmt_u (unat (hw MY_ANB6)) @ '' ''
                @ fmt_u (unat (hw MY_ANB5))"
  have "NUL \<notin> set ?body"
    using fmt_u_no_NUL by (simp add: NUL_def)
  moreover have "length ?body \<le> 39"
    using fmt_u_word16 [of "hw MY_ANC2"] fmt_u_word16 [of "hw MY_ANC7"] fmt_u_word16 [of "hw MY_ANB7"]
      fmt_u_word16 [of "hw MY_ANB6"] fmt_u_word16 [of "hw MY_ANB5"] by simp
  ultimately have "one_reply st (reply (''/0'' @ ?body @ [CHR ''#'', CHR 0x0A]) st)"
    by (intro one_replyI) simp_all
  then show ?thesis
    by (simp add: case_a_def ADC_read_def)
qed

lemma fmt_u_Suc0: "fmt_u (Suc 0) = ''1''"
  using fmt_u_small(2) by simp

lemma case_L_token:
  assumes "strtok args sep_tok = Some (token, saved)"
  shows "case_L args st =
           reply (''/0L '' @ (if odd (atoi token) then ''1'' else ''0'') @ [CHR ''#'', CHR 0x0A])
             (st\<lparr>GREENLED := of_bool (odd (atoi token)), override_led := of_bool (odd (atoi token))\<rparr>)"
  using assms by (simp add: case_L_def Let_def low_bit fmt_d_def fmt_u_small fmt_u_Suc0)

lemma case_L_none:
  assumes "strtok args sep_tok = None"
  shows "case_L args st = reply (''/0L error: no value'' @ [CHR ''#'', CHR 0x0A]) st"
  using assms by (simp add: case_L_def)

lemma case_L_reply: "one_reply st (case_L args st)"
proof (cases "strtok args sep_tok")
  case None
  show ?thesis
    using one_replyI [of "''L error: no value''" st st]
    by (simp add: case_L_none [OF None] NUL_def)
next
  case (Some a)
  then obtain token saved where tk: "strtok args sep_tok = Some (token, saved)"
    by (cases a) simp
  let ?st = "st\<lparr>GREENLED := of_bool (odd (atoi token)), override_led := of_bool (odd (atoi token))\<rparr>"
  have "one_reply st (reply (''/0'' @ (''L '' @ (if odd (atoi token) then ''1'' else ''0'')) @ [CHR ''#'', CHR 0x0A]) ?st)"
    by (intro one_replyI) (simp_all add: NUL_def)
  then show ?thesis
    by (simp add: case_L_token [OF tk])
qed

lemma clamp_word:
  fixes level :: "16 word"
  defines "level1 \<equiv> (if 255 <s level then 255 else level)"
  defines "level2 \<equiv> (if level1 <s 0 then 0 else level1)"
  shows "sint level2 = max 0 (min 255 (sint level))"
    and "(ucast level2 :: 8 word) = word_of_int (max 0 (min 255 (sint level)))"
proof -
  show s: "sint level2 = max 0 (min 255 (sint level))"
    unfolding level1_def level2_def by (auto simp: word_sless_alt)
  then have "uint (ucast level2 :: 8 word) = max 0 (min 255 (sint level))"
    using clamp_cast [of level2] by simp
  then show "(ucast level2 :: 8 word) = word_of_int (max 0 (min 255 (sint level)))"
    by (metis word_of_int_uint)
qed

lemma case_w_on:
  assumes "strtok args sep_tok = Some (token, saved)"
    and "(case strtok saved sep_tok of Some (token2, _) \<Rightarrow> (ucast (atoi token2) :: 8 word) | None \<Rightarrow> 1) \<noteq> 0"
  shows "case_w args st =
           reply (''/0w VREF on level='' @ fmt_u (nat (max 0 (min 255 (sint (atoi token))))) @ [CHR ''#'', CHR 0x0A])
             (set_VREF_on (word_of_int (max 0 (min 255 (sint (atoi token))))) st)"
  using assms clamp_word [of "atoi token"]
  by (simp add: case_w_def Let_def fmt_d_def)

lemma case_w_off:
  assumes "strtok args sep_tok = Some (token, saved)"
    and "(case strtok saved sep_tok of Some (token2, _) \<Rightarrow> (ucast (atoi token2) :: 8 word) | None \<Rightarrow> 1) = 0"
  shows "case_w args st = reply (''/0w VREF off'' @ [CHR ''#'', CHR 0x0A]) (set_VREF_off st)"
  using assms by (simp add: case_w_def Let_def)

lemma case_w_none:
  assumes "strtok args sep_tok = None"
  shows "case_w args st = reply (''/0w error: missing level and on/off flag'' @ [CHR ''#'', CHR 0x0A]) st"
  using assms by (simp add: case_w_def)

lemma fmt_u_byte: "n \<le> 255 \<Longrightarrow> length (fmt_u n) \<le> 3"
  by (intro fmt_u_length) simp_all

lemma case_w_reply: "one_reply st (case_w args st)"
proof (cases "strtok args sep_tok")
  case None
  show ?thesis
    using one_replyI [of "''w error: missing level and on/off flag''" st st]
    by (simp add: case_w_none [OF None] NUL_def)
next
  case (Some a)
  then obtain token saved where tk: "strtok args sep_tok = Some (token, saved)"
    by (cases a) simp
  let ?flag = "(case strtok saved sep_tok of Some (token2, _) \<Rightarrow> (ucast (atoi token2) :: 8 word) | None \<Rightarrow> 1)"
  show ?thesis
  proof (cases "?flag = 0")
    case True
    have "one_reply st (reply (''/0'' @ ''w VREF off'' @ [CHR ''#'', CHR 0x0A]) (set_VREF_off st))"
      by (intro one_replyI) (simp_all add: NUL_def set_VREF_off_def)
    then show ?thesis
      by (simp add: case_w_off [OF tk True])
  next
    case False
    let ?cl = "max 0 (min 255 (sint (atoi token)))"
    have "length (fmt_u (nat ?cl)) \<le> 3" by (intro fmt_u_byte) simp
    then have "one_reply st (reply (''/0'' @ (''w VREF on level='' @ fmt_u (nat ?cl)) @ [CHR ''#'', CHR 0x0A])
                 (set_VREF_on (word_of_int ?cl) st))"
      using fmt_u_no_NUL [of "nat ?cl"]
      by (intro one_replyI) (simp_all add: NUL_def set_VREF_on_def)
    then show ?thesis
      by (simp add: case_w_on [OF tk False])
  qed
qed

lemma case_fields [simp]:
  "GREENLED (case_v st) = GREENLED st"
  "override_led (case_v st) = override_led st"
  "vref_log (case_v st) = vref_log st"
  "GREENLED (case_a hw st) = GREENLED st"
  "override_led (case_a hw st) = override_led st"
  "vref_log (case_a hw st) = vref_log st"
  "GREENLED (case_default c st) = GREENLED st"
  "override_led (case_default c st) = override_led st"
  "vref_log (case_default c st) = vref_log st"
  "GREENLED (case_w args st) = GREENLED st"
  "override_led (case_w args st) = override_led st"
  "vref_log (case_L args st) = vref_log st"
  by (simp_all add: case_v_def case_a_def case_default_def case_w_def case_L_def Let_def
        set_VREF_on_def set_VREF_off_def split: option.splits)

lemma case_L_leds:
  "ucast (GREENLED st) = override_led st \<Longrightarrow>
   ucast (GREENLED (case_L args st)) = override_led (case_L args st)"
  by (cases "strtok args sep_tok") (auto simp: case_L_token case_L_none)

lemma interpret_unfold:
  "interpret_RS485_command hw (c # args) st =
     (let st1 = (if override_led st = 0 then st\<lparr>GREENLED := 1\<rparr> else st);
          st2 = (if c = CHR ''v'' then case_v st1
                 else if c = CHR ''L'' then case_L args st1
                 else if c = CHR ''a'' then case_a hw st1
                 else if c = CHR ''w'' then case_w args st1
                 else case_default c st1)
      in if override_led st2 = 0 then st2\<lparr>GREENLED := 0\<rparr> else st2)"
  by (simp add: interpret_RS485_command_def)

lemma interpret_one_reply:
  assumes "c \<noteq> NUL"
  shows "one_reply st (interpret_RS485_command hw (c # args) st)"
proof -
  define st1 where "st1 = (if override_led st = 0 then st\<lparr>GREENLED := 1\<rparr> else st)"
  define st2 where "st2 = (if c = CHR ''v'' then case_v st1
                 else if c = CHR ''L'' then case_L args st1
                 else if c = CHR ''a'' then case_a hw st1
                 else if c = CHR ''w'' then case_w args st1
                 else case_default c st1)"
  have tx1: "uart_tx st1 = uart_tx st" by (simp add: st1_def)
  have "one_reply st1 st2"
    unfolding st2_def
    using case_v_reply case_L_reply case_a_reply case_w_reply case_default_reply [OF assms] by simp
  then have "one_reply st st2" by (simp add: one_reply_def tx1)
  moreover have "uart_tx (interpret_RS485_command hw (c # args) st) = uart_tx st2"
    by (simp add: interpret_unfold Let_def st1_def st2_def)
  ultimately show ?thesis by (simp add: one_reply_def)
qed

lemma interpret_leds:
  assumes "ucast (GREENLED st) = override_led st"
  shows "ucast (GREENLED (interpret_RS485_command hw cmdStr st))
           = override_led (interpret_RS485_command hw cmdStr st)"
proof -
  define st1 where "st1 = (if override_led st = 0 then st\<lparr>GREENLED := 1\<rparr> else st)"
  have ov1: "override_led st1 = override_led st" by (simp add: st1_def)
  have keep: "ucast (GREENLED (if override_led st2 = 0 then st2\<lparr>GREENLED := 0\<rparr> else st2))
           = override_led (if override_led st2 = 0 then st2\<lparr>GREENLED := 0\<rparr> else st2)"
    if "override_led st2 \<noteq> 0 \<longrightarrow> ucast (GREENLED st2) = override_led st2" for st2 :: mcu
    using that by simp
  have same: "override_led st2 \<noteq> 0 \<longrightarrow> ucast (GREENLED st2) = override_led st2"
    if "GREENLED st2 = GREENLED st1" "override_led st2 = override_led st1" for st2 :: mcu
    using that assms by (simp add: st1_def)
  have L: "override_led st2 \<noteq> 0 \<longrightarrow> ucast (GREENLED st2) = override_led st2"
    if "st2 = case_L args st1" for st2 :: mcu and args
  proof (cases "strtok args sep_tok")
    case None
    then show ?thesis using that same [of st2] by (simp add: case_L_none)
  next
    case (Some a)
    then show ?thesis using that by (cases a) (simp add: case_L_token)
  qed
  have inv1: "override_led st1 \<noteq> 0 \<Longrightarrow> ucast (GREENLED st1) = override_led st1"
    using same [of st1] by simp
  have invL: "override_led (case_L args st1) \<noteq> 0 \<Longrightarrow>
                ucast (GREENLED (case_L args st1)) = override_led (case_L args st1)" for args
    using L [of "case_L args st1" args] by simp
  show ?thesis
    unfolding interpret_RS485_command_def Let_def st1_def [symmetric]
    by (intro keep) (auto simp: inv1 invL)
qed

lemma interpret_all_leds:
  "ucast (GREENLED st) = override_led st \<Longrightarrow>
   ucast (GREENLED (interpret_all cmds st)) = override_led (interpret_all cmds st)"
proof (induction cmds arbitrary: st)
  case Nil
  then show ?case by simp
next
  case (Cons a cmds)
  obtain hw cmdStr where a: "a = (hw, cmdStr)" by (cases a)
  show ?case
    unfolding a interpret_all.simps
    by (rule Cons.IH) (rule interpret_leds [OF Cons.prems])
qed

text \<open>
  C9. From the state in which the poll loop starts (LED off, \<^verbatim>\<open>override_led\<close> zero),
  after any sequence of calls of \<^verbatim>\<open>interpret_RS485_command\<close>, whatever the command
  texts and the converter readings, the LED latch bit equals \<^verbatim>\<open>override_led\<close>.
\<close>

theorem led_equals_override:
  "ucast (GREENLED (interpret_all cmds reset_state)) = override_led (interpret_all cmds reset_state)"
  by (rule interpret_all_leds) (simp add: reset_state_def)

lemma unknown_reply:
  assumes "c \<noteq> NUL" and "c \<notin> set ''vLaw''"
  shows "uart_tx (interpret_RS485_command hw (c # args) st)
           = uart_tx st @ [''/0'' @ [c] @ '' error: Unknown command'' @ [CHR ''#'', CHR 0x0A]]"
proof -
  have "uart_tx (reply (''/0'' @ ([c] @ '' error: Unknown command'') @ [CHR ''#'', CHR 0x0A]) st0)
          = uart_tx st0 @ [''/0'' @ ([c] @ '' error: Unknown command'') @ [CHR ''#'', CHR 0x0A]]" for st0
    using assms(1) by (intro framed_reply) (simp_all add: NUL_def)
  then show ?thesis
    using assms(2) by (simp add: interpret_unfold Let_def case_default_def)
qed

subsection \<open>The poll loop\<close>

lemma window_whole:
  assumes "length bufA = 80"
  shows "\<exists>zs. window bufA NBUFA (takeWhile (\<lambda>c. c \<noteq> NUL) bufA) zs"
  using window_line [of NBUFA bufA] assms by (simp add: NBUFA_def)

lemma line_buffer_length: "length line \<le> 80 \<Longrightarrow> length (line_buffer line) = 80"
  by (simp add: line_buffer_def NBUFA_def)

lemma line_buffer_line:
  "NUL \<notin> set line \<Longrightarrow> takeWhile (\<lambda>c. c \<noteq> NUL) (line_buffer line) = line"
proof -
  assume n: "NUL \<notin> set line"
  have "takeWhile (\<lambda>c. c \<noteq> NUL) (line @ replicate k NUL)
          = line @ takeWhile (\<lambda>c. c \<noteq> NUL) (replicate k NUL)" for k
    using n by (intro takeWhile_append2) auto
  then show ?thesis
    by (simp add: line_buffer_def)
qed

lemma spec_rejects:
  assumes "line = takeWhile (\<lambda>c. c \<noteq> NUL) bytes"
    and "CHR ''/'' \<notin> set line \<or> CHR ''!'' \<notin> set line \<or> target_id line \<noteq> Some MYID"
  shows "spec_extract bytes = None"
proof -
  let ?after = "drop 1 (dropWhile (\<lambda>c. c \<noteq> CHR ''/'') line)"
  have sub: "set ?after \<subseteq> set line"
    by (meson set_drop_subset set_dropWhileD subsetD subsetI)
  have "CHR ''/'' \<notin> set line \<or> CHR ''!'' \<notin> set ?after \<or> hd ?after \<noteq> MYID"
  proof (cases "CHR ''!'' \<in> set ?after")
    case False
    then show ?thesis by blast
  next
    case True
    then obtain t ts where "?after = t # ts" by (cases ?after) auto
    then have "target_id line = Some (hd ?after)" by (simp add: target_id_def)
    then show ?thesis using assms(2) True sub by auto
  qed
  then show ?thesis
    unfolding spec_extract_def Let_def assms(1) [symmetric] by auto
qed

lemma main_pass_reject:
  assumes "length bufA = 80" and "spec_extract bufA = None"
  shows "main_pass hw bufA m st = Inr st"
proof -
  have pos: "0 < length bufA" using assms(1) by simp
  have "take (nat NBUFA) bufA = bufA" using assms(1) by (simp add: NBUFA_def)
  then have "trim_RS485_command bufA NBUFA = discard bufA"
    using trim_cases [of NBUFA bufA] assms by (auto simp: NBUFA_def)
  then have "trim_RS485_command bufA NBUFA = Inr (bufA[0 := NUL], 0)"
    using discard_ok [OF pos] by simp
  moreover have "buf_read (bufA[0 := NUL]) 0 = Inr NUL"
    using pos by (simp add: buf_read_def)
  ultimately show ?thesis by (simp add: main_pass_def)
qed

lemma trim_frame:
  assumes "0 < nbytes" and "nbytes \<le> int (length buf)"
    and "takeWhile (\<lambda>c. c \<noteq> NUL) (take (nat nbytes) buf) = pre @ CHR ''/'' # MYID # payload @ CHR ''!'' # post"
    and "CHR ''/'' \<notin> set pre" and "CHR ''!'' \<notin> set payload"
  shows "\<exists>zs. trim_RS485_command buf nbytes
               = Inr (pre @ CHR ''/'' # MYID # payload @ NUL # post @ zs, int (length pre) + 2)"
    and "NUL \<notin> set payload"
proof -
  obtain zs where w: "window buf nbytes (pre @ CHR ''/'' # MYID # payload @ CHR ''!'' # post) zs"
    using window_line [OF assms(1,2)] assms(3) by auto
  show "NUL \<notin> set payload" using w by (simp add: window_def)
  show "\<exists>zs. trim_RS485_command buf nbytes
               = Inr (pre @ CHR ''/'' # MYID # payload @ NUL # post @ zs, int (length pre) + 2)"
    using trim_accept [OF w assms(4,5)] by blast
qed

lemma trimmed_frame:
  assumes "0 < nbytes" and "nbytes \<le> int (length buf)"
    and "takeWhile (\<lambda>c. c \<noteq> NUL) (take (nat nbytes) buf) = pre @ CHR ''/'' # MYID # payload @ CHR ''!'' # post"
    and "CHR ''/'' \<notin> set pre" and "CHR ''!'' \<notin> set payload"
  shows "trimmed buf nbytes = Inr payload"
  using trim_frame [OF assms] cstring_payload [of payload pre]
  by (auto simp: trimmed_def)

lemma main_pass_frame:
  assumes "length bufA = 80" and "0 < m"
    and "takeWhile (\<lambda>c. c \<noteq> NUL) bufA = pre @ CHR ''/'' # MYID # payload @ CHR ''!'' # post"
    and "CHR ''/'' \<notin> set pre" and "CHR ''!'' \<notin> set payload"
  shows "main_pass hw bufA m st
           = Inr (if payload = [] then st else interpret_RS485_command hw payload st)"
proof -
  have tk: "take (nat NBUFA) bufA = bufA" using assms(1) by (simp add: NBUFA_def)
  have b: "0 < NBUFA" "NBUFA \<le> int (length bufA)" using assms(1) by (simp_all add: NBUFA_def)
  have l: "takeWhile (\<lambda>c. c \<noteq> NUL) (take (nat NBUFA) bufA) = pre @ CHR ''/'' # MYID # payload @ CHR ''!'' # post"
    using assms(3) tk by simp
  note tf = trim_frame [OF b l assms(4,5)]
  obtain zs where t: "trim_RS485_command bufA NBUFA
               = Inr (pre @ CHR ''/'' # MYID # payload @ NUL # post @ zs, int (length pre) + 2)"
    using tf(1) by blast
  have hd: "hd (payload @ [NUL]) = NUL \<longleftrightarrow> payload = []"
    using tf(2) by (cases payload) auto
  show ?thesis
    using t assms(2) hd buf_read_payload [of pre payload "post @ zs"]
      cstring_payload [OF tf(2), of pre "post @ zs"]
    by (simp add: main_pass_def)
qed

text \<open>
  C2. When the line in the incoming array (its bytes before the first zero byte) has
  no \<^verbatim>\<open>/\<close>, or no \<^verbatim>\<open>!\<close>, or a target id other than this node's, a pass of the
  poll loop ends without a fault and leaves the device as it was: nothing is passed to
  \<^verbatim>\<open>uart1_putstr\<close>, and the loop goes on to the next line.
\<close>

theorem silent_on_noise:
  assumes "length bufA = 80" and "line = takeWhile (\<lambda>c. c \<noteq> NUL) bufA"
    and "CHR ''/'' \<notin> set line \<or> CHR ''!'' \<notin> set line \<or> target_id line \<noteq> Some MYID"
  shows "main_pass hw bufA m st = Inr st"
  using assms(1) spec_rejects [OF assms(2,3)] by (rule main_pass_reject)

theorem silent_on_noise_witness:
  "length (line_buffer ''/Xv!'') = 80 \<and>
   ''/Xv!'' = takeWhile (\<lambda>c. c \<noteq> NUL) (line_buffer ''/Xv!'') \<and>
   target_id ''/Xv!'' \<noteq> Some MYID \<and>
   main_pass adc_zero (line_buffer ''/Xv!'') 4 reset_state = Inr reset_state"
proof -
  have a: "length (line_buffer ''/Xv!'') = 80" by (simp add: line_buffer_length)
  have b: "''/Xv!'' = takeWhile (\<lambda>c. c \<noteq> NUL) (line_buffer ''/Xv!'')"
    using line_buffer_line [of "''/Xv!''"] by (simp add: NUL_def)
  have c: "target_id ''/Xv!'' \<noteq> Some MYID" by (simp add: target_id_def MYID_def)
  then have "CHR ''/'' \<notin> set ''/Xv!'' \<or> CHR ''!'' \<notin> set ''/Xv!'' \<or> target_id ''/Xv!'' \<noteq> Some MYID"
    by blast
  from silent_on_noise [OF a b this] a b c show ?thesis by blast
qed

text \<open>
  C3, as the code has it. A frame addressed to this node with an empty payload gets no
  reply: \<^verbatim>\<open>main\<close> interprets the command only when its first byte is not zero.
\<close>

theorem empty_payload_no_reply:
  "spec_extract (line_buffer ''/N!'') = Some [] \<and>
   main_pass adc_zero (line_buffer ''/N!'') 3 reset_state = Inr reset_state \<and>
   uart_tx reset_state = []"
proof -
  have l: "takeWhile (\<lambda>c. c \<noteq> NUL) (line_buffer ''/N!'') = [] @ CHR ''/'' # MYID # [] @ CHR ''!'' # []"
    using line_buffer_line [of "''/N!''"] by (simp add: NUL_def MYID_def)
  have "main_pass adc_zero (line_buffer ''/N!'') 3 reset_state = Inr reset_state"
    using main_pass_frame [OF _ _ l, of 3 adc_zero reset_state] by (simp add: line_buffer_length)
  moreover have "spec_extract (line_buffer ''/N!'') = Some []"
    using l by (simp add: spec_extract_def MYID_def)
  ultimately show ?thesis by (simp add: reset_state_def)
qed

text \<open>
  C3, amended. When \<^verbatim>\<open>uart1_getstr\<close> reports a line (\<open>m > 0\<close>) and the line holds
  a frame for this node (its first \<^verbatim>\<open>/\<close> is followed by \<^verbatim>\<open>N\<close> and, later, by a
  \<^verbatim>\<open>!\<close>) whose payload is not empty, the pass ends without a fault and exactly one
  string is passed to \<^verbatim>\<open>uart1_putstr\<close>; it begins with \<^verbatim>\<open>/0\<close> and ends with
  \<^verbatim>\<open>#\<close> and the newline.
\<close>

theorem one_reply_per_frame:
  assumes "length bufA = 80" and "0 < m"
    and "takeWhile (\<lambda>c. c \<noteq> NUL) bufA = pre @ [CHR ''/'', MYID] @ payload @ [CHR ''!''] @ post"
    and "CHR ''/'' \<notin> set pre" and "CHR ''!'' \<notin> set payload" and "payload \<noteq> []"
  shows "\<exists>st' r. main_pass hw bufA m st = Inr st' \<and> uart_tx st' = uart_tx st @ [r] \<and>
           prefix ''/0'' r \<and> suffix [CHR ''#'', CHR 0x0A] r"
proof -
  have l: "takeWhile (\<lambda>c. c \<noteq> NUL) bufA = pre @ CHR ''/'' # MYID # payload @ CHR ''!'' # post"
    using assms(3) by simp
  have tk: "take (nat NBUFA) bufA = bufA" using assms(1) by (simp add: NBUFA_def)
  have "NUL \<notin> set (takeWhile (\<lambda>c. c \<noteq> NUL) bufA)" by (auto dest: set_takeWhileD)
  then have nonul: "NUL \<notin> set payload" unfolding l by simp
  obtain c args where p: "payload = c # args" using assms(6) by (cases payload) auto
  have "c \<noteq> NUL" using nonul p by auto
  then have "one_reply st (interpret_RS485_command hw payload st)"
    unfolding p by (rule interpret_one_reply)
  moreover have "main_pass hw bufA m st = Inr (interpret_RS485_command hw payload st)"
    using main_pass_frame [OF assms(1,2) l assms(4,5)] assms(6) by simp
  ultimately show ?thesis
    by (auto simp: one_reply_def well_framed_def)
qed

theorem one_reply_per_frame_witness:
  "length (line_buffer ''/Nv!'') = 80 \<and> (0::int) < 4 \<and>
   takeWhile (\<lambda>c. c \<noteq> NUL) (line_buffer ''/Nv!'') = [] @ [CHR ''/'', MYID] @ ''v'' @ [CHR ''!''] @ [] \<and>
   (\<exists>st' r. main_pass adc_zero (line_buffer ''/Nv!'') 4 reset_state = Inr st' \<and>
      uart_tx st' = uart_tx reset_state @ [r] \<and> prefix ''/0'' r \<and> suffix [CHR ''#'', CHR 0x0A] r)"
proof -
  have a: "length (line_buffer ''/Nv!'') = 80" by (simp add: line_buffer_length)
  have l: "takeWhile (\<lambda>c. c \<noteq> NUL) (line_buffer ''/Nv!'') = [] @ [CHR ''/'', MYID] @ ''v'' @ [CHR ''!''] @ []"
    using line_buffer_line [of "''/Nv!''"] by (simp add: NUL_def MYID_def)
  have m: "(0::int) < 4" by simp
  from one_reply_per_frame [OF a m l, of adc_zero reset_state] a l show ?thesis by simp
qed

text \<open>
  C4. A command text whose first byte is none of \<^verbatim>\<open>v\<close>, \<^verbatim>\<open>L\<close>, \<^verbatim>\<open>a\<close>,
  \<^verbatim>\<open>w\<close> is answered with \<^verbatim>\<open>/0\<close>, that byte and
  \<^verbatim>\<open> error: Unknown command#\<close> and a newline; a pass of the poll loop over the line
  \<^verbatim>\<open>/Nz!\<close> transmits exactly \<^verbatim>\<open>/0z error: Unknown command#\<close> and a newline.
\<close>

theorem unknown_command_reply:
  assumes "c \<noteq> NUL" and "c \<notin> set ''vLaw''"
  shows "uart_tx (interpret_RS485_command hw (c # args) st)
           = uart_tx st @ [''/0'' @ [c] @ '' error: Unknown command'' @ [CHR ''#'', CHR 0x0A]] \<and>
         (\<exists>st'. main_pass hw (line_buffer ''/Nz!'') 4 st = Inr st' \<and>
                uart_tx st' = uart_tx st @ [''/0z error: Unknown command'' @ [CHR ''#'', CHR 0x0A]])"
proof -
  have l: "takeWhile (\<lambda>c. c \<noteq> NUL) (line_buffer ''/Nz!'') = [] @ CHR ''/'' # MYID # ''z'' @ CHR ''!'' # []"
    using line_buffer_line [of "''/Nz!''"] by (simp add: NUL_def MYID_def)
  have "main_pass hw (line_buffer ''/Nz!'') 4 st = Inr (interpret_RS485_command hw ''z'' st)"
    using main_pass_frame [OF _ _ l, of 4 hw st] by (simp add: line_buffer_length)
  moreover have "uart_tx (interpret_RS485_command hw ''z'' st)
                   = uart_tx st @ [''/0z error: Unknown command'' @ [CHR ''#'', CHR 0x0A]]"
    using unknown_reply [of "CHR ''z''" hw "[]" st] by (simp add: NUL_def)
  ultimately show ?thesis
    using unknown_reply [OF assms] by simp
qed

theorem unknown_command_reply_witness:
  "CHR ''?'' \<noteq> NUL \<and> CHR ''?'' \<notin> set ''vLaw'' \<and>
   uart_tx (interpret_RS485_command adc_zero ''?10'' reset_state)
     = [''/0? error: Unknown command'' @ [CHR ''#'', CHR 0x0A]]"
  using unknown_command_reply [of "CHR ''?''" adc_zero "''10''" reset_state]
  by (simp add: NUL_def reset_state_def)

text \<open>
  C6, as the code has it. A payload that holds a \<^verbatim>\<open>!\<close> does not come back: the
  extractor ends the frame at the first \<^verbatim>\<open>!\<close>.
\<close>

theorem round_trip_cut_at_delimiter:
  "trimmed (line_buffer ([CHR ''/'', MYID] @ ''x!y'' @ [CHR ''!''])) NBUFA = Inr ''x'' \<and>
   ''x'' \<noteq> ''x!y''"
proof -
  have l: "takeWhile (\<lambda>c. c \<noteq> NUL) (take (nat NBUFA) (line_buffer ([CHR ''/'', MYID] @ ''x!y'' @ [CHR ''!''])))
             = [] @ CHR ''/'' # MYID # ''x'' @ CHR ''!'' # ''y!''"
    using line_buffer_line [of "[CHR ''/'', MYID] @ ''x!y'' @ [CHR ''!'']"]
      line_buffer_length [of "[CHR ''/'', MYID] @ ''x!y'' @ [CHR ''!'']"]
    by (simp add: NUL_def MYID_def NBUFA_def)
  have "trimmed (line_buffer ([CHR ''/'', MYID] @ ''x!y'' @ [CHR ''!''])) NBUFA = Inr ''x''"
    by (rule trimmed_frame [OF _ _ l]) (simp_all add: NBUFA_def line_buffer_length)
  then show ?thesis by simp
qed

text \<open>
  C6, amended. For every payload \<open>a\<close> without a \<^verbatim>\<open>!\<close> and without a zero byte, of at
  most 77 bytes so that the frame fits the 80-byte array, the frame \<^verbatim>\<open>/\<close>, \<^verbatim>\<open>N\<close>,
  \<open>a\<close>, \<^verbatim>\<open>!\<close>, whatever bytes fill the array after it, comes back from
  \<^verbatim>\<open>trim_RS485_command\<close> as \<open>a\<close>.
\<close>

theorem round_trip:
  assumes "CHR ''!'' \<notin> set a" and "NUL \<notin> set a" and "length a + 3 + length tail = 80"
  shows "trimmed ([CHR ''/'', MYID] @ a @ [CHR ''!''] @ tail) NBUFA = Inr a"
proof -
  let ?buf = "[CHR ''/'', MYID] @ a @ [CHR ''!''] @ tail"
  have len: "length ?buf = 80" using assms(3) by simp
  have "takeWhile (\<lambda>c. c \<noteq> NUL) (([CHR ''/'', MYID] @ a @ [CHR ''!'']) @ tail)
          = ([CHR ''/'', MYID] @ a @ [CHR ''!'']) @ takeWhile (\<lambda>c. c \<noteq> NUL) tail"
    using assms(2) by (intro takeWhile_append2) (auto simp: NUL_def MYID_def)
  then have l: "takeWhile (\<lambda>c. c \<noteq> NUL) (take (nat NBUFA) ?buf)
          = [] @ CHR ''/'' # MYID # a @ CHR ''!'' # takeWhile (\<lambda>c. c \<noteq> NUL) tail"
    using len by (simp add: NBUFA_def)
  show ?thesis
    by (rule trimmed_frame [OF _ _ l]) (use len assms(1) in \<open>simp_all add: NBUFA_def\<close>)
qed

theorem round_trip_witness:
  "CHR ''!'' \<notin> set ''w 200 1'' \<and> NUL \<notin> set ''w 200 1'' \<and>
   length ''w 200 1'' + 3 + length (replicate 70 (CHR ''?'')) = 80 \<and>
   trimmed ([CHR ''/'', MYID] @ ''w 200 1'' @ [CHR ''!''] @ replicate 70 (CHR ''?'')) NBUFA = Inr ''w 200 1''"
  using round_trip [of "''w 200 1''" "replicate 70 (CHR ''?'')"]
  by (simp add: NUL_def)

subsection \<open>Arguments\<close>

lemma strtok_none:
  "set args \<subseteq> set sep \<Longrightarrow> strtok args sep = None"
  by (auto simp: strtok_def Let_def dropWhile_eq_Nil_conv)

lemma led_bit_zero: "ucast (g :: 1 word) = (0 :: 8 word) \<Longrightarrow> g = 0"
proof -
  assume "ucast g = (0 :: 8 word)"
  then have "uint (ucast g :: 8 word) = 0" by simp
  then have "take_bit 8 (uint g) = 0" by (simp add: unsigned_ucast_eq)
  moreover have "uint g < 2 ^ 1" using unsigned_less [of g] by simp
  ultimately have "uint g = 0" by (simp add: take_bit_int_eq_self)
  then show ?thesis by (simp add: uint_0_iff)
qed

lemma no_argument:
  assumes "set args \<subseteq> set sep_tok" and "ucast (GREENLED st) = override_led st"
    and "c = CHR ''L'' \<and> msg = ''/0L error: no value'' @ [CHR ''#'', CHR 0x0A] \<or>
         c = CHR ''w'' \<and> msg = ''/0w error: missing level and on/off flag'' @ [CHR ''#'', CHR 0x0A]"
  shows "uart_tx (interpret_RS485_command hw (c # args) st) = uart_tx st @ [msg]"
    and "GREENLED (interpret_RS485_command hw (c # args) st) = GREENLED st"
    and "override_led (interpret_RS485_command hw (c # args) st) = override_led st"
    and "vref_log (interpret_RS485_command hw (c # args) st) = vref_log st"
proof -
  note none = strtok_none [OF assms(1)]
  have fits: "uart_tx (reply msg st0) = uart_tx st0 @ [msg]" for st0
    using assms(3) by (intro reply_fits) (auto simp: NUL_def NBUFB_def)
  have st2: "interpret_RS485_command hw (c # args) st =
               (let st1 = (if override_led st = 0 then st\<lparr>GREENLED := 1\<rparr> else st);
                    st2 = reply msg st1
                in if override_led st2 = 0 then st2\<lparr>GREENLED := 0\<rparr> else st2)"
    using assms(3) by (auto simp: interpret_unfold Let_def case_L_none [OF none] case_w_none [OF none])
  show "uart_tx (interpret_RS485_command hw (c # args) st) = uart_tx st @ [msg]"
    by (simp add: st2 Let_def fits)
  show "override_led (interpret_RS485_command hw (c # args) st) = override_led st"
    by (simp add: st2 Let_def)
  show "vref_log (interpret_RS485_command hw (c # args) st) = vref_log st"
    by (simp add: st2 Let_def)
  show "GREENLED (interpret_RS485_command hw (c # args) st) = GREENLED st"
    using assms(2) led_bit_zero [of "GREENLED st"] by (simp add: st2 Let_def)
qed

lemma sublist_error:
  "sublist ''error'' (''/0L error: no value'' @ [CHR ''#'', CHR 0x0A])"
  "sublist ''error'' (''/0w error: missing level and on/off flag'' @ [CHR ''#'', CHR 0x0A])"
proof -
  have "sublist ''error'' (''/0L '' @ ''error'' @ ('': no value'' @ [CHR ''#'', CHR 0x0A]))"
    by (rule sublist_appendI)
  then show "sublist ''error'' (''/0L error: no value'' @ [CHR ''#'', CHR 0x0A])"
    by (simp del: sublist_appendI)
  have "sublist ''error'' (''/0w '' @ ''error'' @ ('': missing level and on/off flag'' @ [CHR ''#'', CHR 0x0A]))"
    by (rule sublist_appendI)
  then show "sublist ''error'' (''/0w error: missing level and on/off flag'' @ [CHR ''#'', CHR 0x0A])"
    by (simp del: sublist_appendI)
qed

text \<open>
  C5. In any state the device can reach, an \<^verbatim>\<open>L\<close> or a \<^verbatim>\<open>w\<close> command with
  nothing but separators after the command character is answered with one reply that
  contains \<^verbatim>\<open>error\<close>, and the operation is not attempted: after the call the LED
  and \<^verbatim>\<open>override_led\<close> are what they were before it, and no call of
  \<^verbatim>\<open>set_VREF_on\<close> or \<^verbatim>\<open>set_VREF_off\<close> was made. (During the call the LED
  shows activity, as for every command, unless the override is set.)
\<close>

theorem missing_argument_error:
  assumes "c = CHR ''L'' \<or> c = CHR ''w''" and "set args \<subseteq> set sep_tok"
  shows "let st = interpret_all cmds reset_state;
             st' = interpret_RS485_command hw (c # args) st
         in (\<exists>r. uart_tx st' = uart_tx st @ [r] \<and> sublist ''error'' r) \<and>
            GREENLED st' = GREENLED st \<and> override_led st' = override_led st \<and>
            vref_log st' = vref_log st"
proof -
  define st where "st = interpret_all cmds reset_state"
  have inv: "ucast (GREENLED st) = override_led st"
    unfolding st_def by (rule interpret_all_leds) (simp add: reset_state_def)
  obtain msg where t: "c = CHR ''L'' \<and> msg = ''/0L error: no value'' @ [CHR ''#'', CHR 0x0A] \<or>
         c = CHR ''w'' \<and> msg = ''/0w error: missing level and on/off flag'' @ [CHR ''#'', CHR 0x0A]"
    using assms(1) by blast
  have "sublist ''error'' msg" using t sublist_error by blast
  then show ?thesis
    using no_argument [OF assms(2) inv t, of hw]
    unfolding Let_def st_def [symmetric] by blast
qed

theorem missing_argument_error_witness:
  "set '', '' \<subseteq> set sep_tok \<and>
   (let st = interpret_all [(adc_zero, ''L 1'')] reset_state;
        st' = interpret_RS485_command adc_zero (CHR ''L'' # '', '') st
    in (\<exists>r. uart_tx st' = uart_tx st @ [r] \<and> sublist ''error'' r) \<and>
       GREENLED st' = GREENLED st \<and> override_led st' = override_led st \<and>
       vref_log st' = vref_log st)"
proof -
  have s: "set '', '' \<subseteq> set sep_tok" by (simp add: sep_tok_def)
  have c: "CHR ''L'' = CHR ''L'' \<or> CHR ''L'' = CHR ''w''" by simp
  from s missing_argument_error [OF c s, of "[(adc_zero, ''L 1'')]" adc_zero]
  show ?thesis by (rule conjI)
qed

lemma no_sublist_without:
  "x \<in> set xs \<Longrightarrow> x \<notin> set ys \<Longrightarrow> \<not> sublist xs ys"
  using set_mono_sublist by fastforce

lemma isdigit_plain:
  assumes "isdigit c"
  shows "\<not> isspace c" and "c \<noteq> CHR ''-''" and "c \<noteq> CHR ''+''"
  using assms by (auto simp: isdigit_def isspace_def)



lemma digit_char_value:
  assumes "d < 10"
  shows "isdigit (digit_char d)" and "of_char (digit_char d) - 48 = int d"
proof -
  show "isdigit (digit_char d)"
    using digit_char_digit [OF assms] by (simp add: isdigit_def)
  have "d = 0 \<or> d = 1 \<or> d = 2 \<or> d = 3 \<or> d = 4 \<or> d = 5 \<or> d = 6 \<or> d = 7 \<or> d = 8 \<or> d = 9"
    using assms by arith
  then show "of_char (digit_char d) - 48 = int d"
    by (elim disjE) (simp_all add: digit_char_def)
qed

lemma atoi_digits_append:
  "list_all isdigit xs \<Longrightarrow> atoi_digits a (xs @ ys) = atoi_digits (atoi_digits a xs) ys"
  by (induction xs arbitrary: a) simp_all

lemma fmt_u_all_digits: "list_all isdigit (fmt_u n)"
  using fmt_u_digits [of n] unfolding list_all_iff isdigit_def by blast

lemma atoi_digits_fmt_u: "atoi_digits 0 (fmt_u n) = int n"
proof (induction n rule: fmt_u.induct)
  case (1 n)
  show ?case
  proof (cases "n < 10")
    case True
    then show ?thesis
      using digit_char_value [OF True] by (subst fmt_u.simps) simp
  next
    case False
    have m: "n mod 10 < 10" by simp
    have "atoi_digits 0 (fmt_u (n div 10) @ [digit_char (n mod 10)])
            = atoi_digits (int (n div 10)) [digit_char (n mod 10)]"
      using "1.IH" False by (simp add: atoi_digits_append fmt_u_all_digits)
    also have "\<dots> = int (n div 10) * 10 + int (n mod 10)"
      using digit_char_value [OF m] by simp
    also have "\<dots> = int (n div 10 * 10 + n mod 10)"
      by (simp only: of_nat_add of_nat_mult of_nat_numeral)
    also have "\<dots> = int n" by (simp only: div_mult_mod_eq)
    finally show ?thesis using False by (subst fmt_u.simps) simp
  qed
qed

lemma fmt_u_first: "\<exists>c cs. fmt_u n = c # cs \<and> isdigit c"
proof (cases "fmt_u n")
  case Nil
  then have "atoi_digits 0 (fmt_u n) = 0" by simp
  moreover have "fmt_u n \<noteq> []" by (subst fmt_u.simps) simp
  ultimately show ?thesis using Nil by simp
next
  case (Cons c cs)
  then show ?thesis using fmt_u_all_digits [of n] by simp
qed

lemma atoi_value_fmt_d: "atoi_value (fmt_d n) = n"
proof -
  have u: "atoi_value (fmt_u k) = int k" for k
  proof -
    obtain c cs where f: "fmt_u k = c # cs" and d: "isdigit c"
      using fmt_u_first by blast
    have "atoi_value (c # cs) = atoi_digits 0 (c # cs)"
      using isdigit_plain [OF d] by (simp add: atoi_value_def)
    then show ?thesis using atoi_digits_fmt_u [of k] f by simp
  qed
  show ?thesis
  proof (cases "n < 0")
    case True
    have "atoi_value (CHR ''-'' # fmt_u (nat (- n))) = - atoi_digits 0 (fmt_u (nat (- n)))"
      by (simp add: atoi_value_def isspace_def)
    then show ?thesis using True by (simp add: fmt_d_def atoi_digits_fmt_u)
  next
    case False
    then show ?thesis using u [of "nat n"] by (simp add: fmt_d_def)
  qed
qed

lemma atoi_fmt_d:
  assumes "- 32768 \<le> n" and "n \<le> 32767"
  shows "sint (atoi (fmt_d n)) = n"
proof -
  have "sint (word_of_int n :: 16 word) = signed_take_bit 15 n"
    by (simp add: sint_sbintrunc')
  also have "\<dots> = n"
    using assms by (intro signed_take_bit_int_eq_self) simp_all
  finally show ?thesis by (simp add: atoi_def atoi_value_fmt_d)
qed





text \<open>
  C10, as the code has it. The on/off flag is stored in an \<^verbatim>\<open>int8_t\<close>: the flag
  token \<^verbatim>\<open>256\<close> is not zero, yet its low eight bits are, and \<^verbatim>\<open>w 100 256\<close> calls
  \<^verbatim>\<open>set_VREF_off\<close> and never \<^verbatim>\<open>set_VREF_on\<close>.
\<close>

theorem flag_is_read_as_int8:
  "strtok '' 100 256'' sep_tok = Some (''100'', ''256'') \<and>
   strtok ''256'' sep_tok = Some (''256'', []) \<and> sint (atoi ''256'') = 256 \<and>
   vref_log (interpret_RS485_command adc_zero (CHR ''w'' # '' 100 256'') reset_state) = [VREF_off] \<and>
   uart_tx (interpret_RS485_command adc_zero (CHR ''w'' # '' 100 256'') reset_state)
     = [''/0w VREF off'' @ [CHR ''#'', CHR 0x0A]]"
proof -
  have a: "strtok '' 100 256'' sep_tok = Some (''100'', ''256'')"
    by (simp add: strtok_def sep_tok_def)
  have b: "strtok ''256'' sep_tok = Some (''256'', [])"
    by (simp add: strtok_def sep_tok_def)
  have v: "atoi ''256'' = 256"
    by (simp add: atoi_def atoi_value_def isspace_def isdigit_def)
  have c: "sint (atoi ''256'') = 256" unfolding v by simp
  have f: "(case strtok ''256'' sep_tok of Some (token2, _) \<Rightarrow> (ucast (atoi token2) :: 8 word) | None \<Rightarrow> 1) = 0"
    unfolding b by (simp add: v)
  have fits: "uart_tx (reply (''/0w VREF off'' @ [CHR ''#'', CHR 0x0A]) st0)
                = uart_tx st0 @ [''/0w VREF off'' @ [CHR ''#'', CHR 0x0A]]" for st0
    by (intro reply_fits) (simp_all add: NUL_def NBUFB_def)
  show ?thesis
    using a b c
    by (simp add: interpret_unfold Let_def case_w_off [OF a f] fits [simplified]
          set_VREF_off_def reset_state_def)
qed

text \<open>
  C10, amended. A \<^verbatim>\<open>w\<close> command with a level token and an on/off flag that is absent
  or, as the \<^verbatim>\<open>int8_t\<close> the code stores (the low eight bits of the converted flag
  token), not zero: with \<open>level\<close> the 16-bit value \<^verbatim>\<open>atoi\<close> returns for the level
  token, which is \<open>n\<close> when the token is the decimal numeral of an \<open>n\<close> from -32768 to
  32767, \<^verbatim>\<open>set_VREF_on\<close> is called once, with \<open>level\<close> clamped to 0..255, a value the
  cast to \<^verbatim>\<open>uint8_t\<close> does not change; the reply reports the clamped level and does
  not contain \<^verbatim>\<open>error\<close>.
\<close>

theorem level_is_clamped:
  assumes "strtok args sep_tok = Some (token, saved)"
    and "(case strtok saved sep_tok of Some (token2, _) \<Rightarrow> (ucast (atoi token2) :: 8 word) | None \<Rightarrow> 1) \<noteq> 0"
  shows "let level = sint (atoi token);
             clamped = max 0 (min 255 level);
             st' = interpret_RS485_command hw (CHR ''w'' # args) st
         in vref_log st' = vref_log st @ [VREF_on (word_of_int clamped)] \<and>
            uint (word_of_int clamped :: 8 word) = clamped \<and>
            uart_tx st' = uart_tx st @ [''/0w VREF on level='' @ fmt_d clamped @ [CHR ''#'', CHR 0x0A]] \<and>
            \<not> sublist ''error'' (last (uart_tx st')) \<and>
            (\<forall>n. token = fmt_d n \<longrightarrow> - 32768 \<le> n \<longrightarrow> n \<le> 32767 \<longrightarrow> level = n)"
proof -
  define clamped where "clamped = max 0 (min 255 (sint (atoi token)))"
  define msg where "msg = ''/0w VREF on level='' @ fmt_u (nat clamped) @ [CHR ''#'', CHR 0x0A]"
  have range: "0 \<le> clamped" "clamped \<le> 255" by (simp_all add: clamped_def)
  have d: "fmt_d clamped = fmt_u (nat clamped)" using range by (simp add: fmt_d_def)
  have u: "uint (word_of_int clamped :: 8 word) = clamped"
    using range by (simp add: uint_word_of_int take_bit_int_eq_self)
  have "length (fmt_u (nat clamped)) \<le> 3" using range by (intro fmt_u_byte) simp
  then have fits: "uart_tx (reply msg st0) = uart_tx st0 @ [msg]" for st0
    using fmt_u_no_NUL [of "nat clamped"]
    by (intro reply_fits) (simp_all add: msg_def NUL_def NBUFB_def)
  have "CHR ''r'' \<notin> set msg"
    using fmt_u_no_r [of "nat clamped"] by (simp add: msg_def)
  then have noerr: "\<not> sublist ''error'' msg"
    by (intro no_sublist_without [of "CHR ''r''"]) simp_all
  have w: "case_w args st0 = reply msg (set_VREF_on (word_of_int clamped) st0)" for st0
    using case_w_on [OF assms] by (simp add: msg_def clamped_def)
  have "vref_log (interpret_RS485_command hw (CHR ''w'' # args) st)
          = vref_log st @ [VREF_on (word_of_int clamped)]"
    by (simp add: interpret_unfold Let_def w set_VREF_on_def)
  moreover have "uart_tx (interpret_RS485_command hw (CHR ''w'' # args) st) = uart_tx st @ [msg]"
    by (simp add: interpret_unfold Let_def w fits set_VREF_on_def)
  moreover have "\<forall>n. token = fmt_d n \<longrightarrow> - 32768 \<le> n \<longrightarrow> n \<le> 32767 \<longrightarrow> sint (atoi token) = n"
    using atoi_fmt_d by blast
  ultimately show ?thesis
    using u noerr unfolding Let_def clamped_def [symmetric] d msg_def [symmetric] by simp
qed

theorem level_is_clamped_witness:
  "strtok '' 300'' sep_tok = Some (''300'', []) \<and> ''300'' = fmt_d 300 \<and> sint (atoi ''300'') = 300 \<and>
   (let st' = interpret_RS485_command adc_zero (CHR ''w'' # '' 300'') reset_state
    in vref_log st' = [VREF_on 255] \<and>
       uart_tx st' = [''/0w VREF on level=255'' @ [CHR ''#'', CHR 0x0A]])"
proof -
  have a: "strtok '' 300'' sep_tok = Some (''300'', [])"
    by (simp add: strtok_def sep_tok_def)
  have b: "(case strtok [] sep_tok of Some (token2, _) \<Rightarrow> (ucast (atoi token2) :: 8 word) | None \<Rightarrow> 1) \<noteq> 0"
    by (simp add: strtok_def sep_tok_def)
  have c: "sint (atoi ''300'') = 300"
    by (simp add: atoi_def atoi_value_def isspace_def isdigit_def)
  have d: "fmt_d 255 = ''255''"
    by (simp add: fmt_d_def fmt_u.simps digit_char_def)
  have f: "''300'' = fmt_d 300"
    by (simp add: fmt_d_def fmt_u.simps digit_char_def)
  note e = level_is_clamped [OF a b, of adc_zero reset_state]
  show ?thesis
    using a c d e f by (simp add: Let_def reset_state_def)
qed

subsection \<open>Capacity of the outgoing array\<close>







end
